theory Spec2Isabelle
  imports Complex_Main "HOL-Library.Word" "HOL-Library.Multiset" "HOL-Library.Signed_Division"
begin

section \<open>The file system as the scanner observes it\<close>

text \<open>
  The program (\<^verbatim>\<open>main.go\<close>) reads the file system through four calls of the Go standard
  library: \<^verbatim>\<open>os.ReadDir\<close>, \<^verbatim>\<open>os.Lstat\<close> (inside \<^verbatim>\<open>filepath.WalkDir\<close>), and the methods
  \<^verbatim>\<open>IsDir\<close>, \<^verbatim>\<open>Type\<close> and \<^verbatim>\<open>Info\<close> of a directory entry. The file system is static for the
  duration of one scan and is a finite tree; every node records what those calls return on it.

  \<^item> \<^verbatim>\<open>int64\<close> is a 64-bit word read as two's complement (\<open>sint\<close>); \<open>+\<close> wraps as in Go.
  \<^item> The counters of type \<^verbatim>\<open>int\<close> (whose width Go leaves to the platform) are \<open>int\<close>; they
    are only ever incremented by one per visited entry.
  \<^item> An \<^verbatim>\<open>error\<close> value is \<open>go_error option\<close>, \<open>None\<close> being \<^verbatim>\<open>nil\<close>.
\<close>

type_synonym int64 = "64 word"

datatype go_error =
    PathError   \<comment> \<open>any error reported by the operating system (\<^verbatim>\<open>*fs.PathError\<close>)\<close>
  | SkipDir     \<comment> \<open>\<^verbatim>\<open>filepath.SkipDir\<close>\<close>
  | SkipAll     \<comment> \<open>\<^verbatim>\<open>filepath.SkipAll\<close>\<close>
  | NilDeref    \<comment> \<open>run-time panic: method call on a nil \<^verbatim>\<open>fs.DirEntry\<close>\<close>

text \<open>
  The type bits of a non-directory: a regular file, a symbolic link, or a special file (a named
  pipe, a socket or a device node, for which \<^verbatim>\<open>Type()\<close> has neither \<^verbatim>\<open>ModeDir\<close> nor
  \<^verbatim>\<open>ModeSymlink\<close>). The program inspects only \<^verbatim>\<open>os.ModeSymlink\<close>.
\<close>

datatype ftype = Regular | Symlink | Irregular

text \<open>
  \<open>File t i\<close>: a non-directory of type \<open>t\<close>; \<open>i\<close> is what \<^verbatim>\<open>Info()\<close> (an \<^verbatim>\<open>lstat\<close>) gives:
  \<open>Some n\<close> with \<^verbatim>\<open>Size() = n\<close>, or \<open>None\<close> for an error. For a symbolic link the size is that
  of the link itself (the length of the target path), not of its target.

  \<open>Dir l es r\<close>: a directory; \<open>l\<close> tells whether \<^verbatim>\<open>os.Lstat\<close> on its path succeeds, \<open>es\<close> are
  the entries (name and node) that \<^verbatim>\<open>os.ReadDir\<close> returns, and \<open>r\<close> tells whether
  \<^verbatim>\<open>os.ReadDir\<close> returned them without an error (with \<open>r = False\<close> the list \<open>es\<close> is the
  part read before the error).
\<close>

datatype fsnode =
    File ftype "int64 option"
  | Dir bool "(string \<times> fsnode) list" bool

fun IsDir :: "fsnode \<Rightarrow> bool" where
  "IsDir (Dir l es r) = True"
| "IsDir (File t i) = False"

fun IsSymlink :: "fsnode \<Rightarrow> bool" where
  "IsSymlink (File t i) = (t = Symlink)"
| "IsSymlink (Dir l es r) = False"

text \<open>The program calls \<^verbatim>\<open>Info()\<close> only after \<^verbatim>\<open>IsDir()\<close> has returned false.\<close>

fun Info :: "fsnode \<Rightarrow> int64 option" where
  "Info (File t i) = i"

fun Lstat :: "fsnode \<Rightarrow> bool" where
  "Lstat (File t i) = (i \<noteq> None)"
| "Lstat (Dir l es r) = l"

fun ReadDir :: "fsnode \<Rightarrow> (string \<times> fsnode) list \<times> go_error option" where
  "ReadDir (Dir l es r) = (es, if r then None else Some PathError)"
| "ReadDir (File t i) = ([], Some PathError)"

text \<open>
  The test for a hidden name, written three times in the source as
  \<^verbatim>\<open>len(name) > 0 && name[0] == '.'\<close>.
\<close>

definition dotfile :: "string \<Rightarrow> bool" where
  "dotfile name \<longleftrightarrow> length name > 0 \<and> name ! 0 = CHR ''.''"

section \<open>\<^verbatim>\<open>filepath.WalkDir\<close>\<close>

text \<open>
  \<^verbatim>\<open>filepath.WalkDir\<close> and its helper \<^verbatim>\<open>walkDir\<close> belong to the Go standard library; they
  are transcribed here from \<^verbatim>\<open>path/filepath/path.go\<close>. The callback mutates the variables it
  closes over, so in the model it takes and returns that state \<open>'s\<close>. The walked path is
  represented by its last component: every path the walk builds is
  \<^verbatim>\<open>filepath.Join(parent, name)\<close> for an entry name, whose \<^verbatim>\<open>filepath.Base\<close> is \<open>name\<close>.
  In \<open>walkDir\<close> on \<open>Dir l es r\<close> the call \<^verbatim>\<open>os.ReadDir(path)\<close> returns the entries \<open>es\<close>, with
  an error exactly when \<open>r\<close> is false; the error is then reported to the callback by a second
  call, and the entries read so far are walked all the same.
\<close>

type_synonym 's WalkDirFunc = "'s \<Rightarrow> string \<Rightarrow> fsnode option \<Rightarrow> go_error option \<Rightarrow> 's \<times> go_error option"

fun walkDir :: "'s WalkDirFunc \<Rightarrow> string \<Rightarrow> fsnode \<Rightarrow> 's \<Rightarrow> 's \<times> go_error option"
  and walkDirs :: "'s WalkDirFunc \<Rightarrow> (string \<times> fsnode) list \<Rightarrow> 's \<Rightarrow> 's \<times> go_error option"
where
  "walkDir fn path (File t i) s = fn s path (Some (File t i)) None"
| "walkDir fn path (Dir l es r) s =
     (case fn s path (Some (Dir l es r)) None of
        (s1, Some e) \<Rightarrow> (s1, if e = SkipDir then None else Some e)
      | (s1, None) \<Rightarrow>
          if r then walkDirs fn es s1
          else (case fn s1 path (Some (Dir l es r)) (Some PathError) of
                  (s2, Some e) \<Rightarrow> (s2, if e = SkipDir then None else Some e)
                | (s2, None) \<Rightarrow> walkDirs fn es s2))"
| "walkDirs fn [] s = (s, None)"
| "walkDirs fn (d1 # dirs) s =
     (case walkDir fn (fst d1) (snd d1) s of
        (s1, Some e) \<Rightarrow> (s1, if e = SkipDir then None else Some e)
      | (s1, None) \<Rightarrow> walkDirs fn dirs s1)"

definition WalkDir :: "'s WalkDirFunc \<Rightarrow> string \<Rightarrow> fsnode \<Rightarrow> 's \<Rightarrow> 's \<times> go_error option" where
  "WalkDir fn root' node s =
     (case (if \<not> Lstat node then fn s root' None (Some PathError) else walkDir fn root' node s) of
        (s1, err) \<Rightarrow> (s1, if err = Some SkipDir \<or> err = Some SkipAll then None else err))"

section \<open>The subtree sizer \<^verbatim>\<open>sizeDir\<close>\<close>

text \<open>
  The closure passed to \<^verbatim>\<open>filepath.WalkDir\<close> in \<^verbatim>\<open>sizeDir\<close>; its state is the pair of the
  captured variables \<^verbatim>\<open>total\<close> and \<^verbatim>\<open>count\<close>.
\<close>

fun sizeDir_fn :: "bool \<Rightarrow> (int64 \<times> int) WalkDirFunc" where
  "sizeDir_fn showAll (tot, cnt) path d (Some err) = ((tot, cnt), None)"
| "sizeDir_fn showAll (tot, cnt) path None None = ((tot, cnt), Some NilDeref)"
| "sizeDir_fn showAll (tot, cnt) path (Some d) None =
     (if \<not> showAll \<and> dotfile path then
        (if IsDir d then ((tot, cnt), Some SkipDir) else ((tot, cnt), None))
      else if IsDir d then ((tot, cnt), None)
      else if IsSymlink d then ((tot, cnt + 1), None)
      else (case Info d of
              None \<Rightarrow> ((tot, cnt), None)
            | Some sz \<Rightarrow> ((tot + sz, cnt + 1), None)))"

definition sizeDir :: "string \<Rightarrow> fsnode \<Rightarrow> bool \<Rightarrow> int64 \<times> int \<times> go_error option" where
  "sizeDir root' node showAll =
     (case WalkDir (sizeDir_fn showAll) root' node (0, 0) of
        ((tot, cnt), err) \<Rightarrow> (tot, cnt, err))"

section \<open>The root lister \<^verbatim>\<open>listRootWithSizes\<close>\<close>

record Entry =
  Name :: string
  Size :: int64
  Type :: string

record dirResult =
  entry :: Entry
  size_r :: int64
  count_r :: int
  err_r :: "go_error option"

text \<open>The local variables of \<^verbatim>\<open>listRootWithSizes\<close> that its two \<^verbatim>\<open>for\<close> statements update.\<close>

record scan =
  entries :: "Entry list"
  totalSize :: int64
  totalCount :: int
  dirs :: "(string \<times> fsnode) list"

text \<open>The first loop: hidden entries are skipped, directories queued, files sized at once.\<close>

fun classify :: "bool \<Rightarrow> (string \<times> fsnode) list \<Rightarrow> scan \<Rightarrow> scan" where
  "classify showAll [] st = st"
| "classify showAll (dirEntry # rest) st =
     (if \<not> showAll \<and> dotfile (fst dirEntry) then classify showAll rest st
      else if IsDir (snd dirEntry) then
        classify showAll rest (st\<lparr>dirs := dirs st @ [dirEntry]\<rparr>)
      else (case Info (snd dirEntry) of
              None \<Rightarrow> classify showAll rest st
            | Some sz \<Rightarrow>
                classify showAll rest
                  (st\<lparr>entries := entries st @ [\<lparr>Name = fst dirEntry, Size = sz, Type = ''file''\<rparr>],
                      totalSize := totalSize st + sz,
                      totalCount := totalCount st + 1\<rparr>)))"

text \<open>What one worker sends on the result channel for one queued directory.\<close>

definition worker :: "bool \<Rightarrow> string \<times> fsnode \<Rightarrow> dirResult" where
  "worker showAll dirEntry =
     (case sizeDir (fst dirEntry) (snd dirEntry) showAll of
        (sz, cnt, err) \<Rightarrow>
          \<lparr>entry = \<lparr>Name = fst dirEntry, Size = sz, Type = ''dir''\<rparr>,
           size_r = sz, count_r = cnt, err_r = err\<rparr>)"

text \<open>The second loop, over the results in the order in which they arrive.\<close>

fun collect :: "dirResult list \<Rightarrow> scan \<Rightarrow> scan" where
  "collect [] st = st"
| "collect (result # rest) st =
     (if err_r result \<noteq> None then collect rest st
      else collect rest
             (st\<lparr>entries := entries st @ [entry result],
                 totalSize := totalSize st + size_r result,
                 totalCount := totalCount st + count_r result\<rparr>))"

text \<open>
  \<^verbatim>\<open>sort.Slice\<close> is not a stable sort in general. On a slice of at most 12 elements the
  library sorts by insertion, moving an element to the left only past elements that the
  comparison \<^verbatim>\<open>less\<close> puts strictly after it, which keeps the order among elements that the
  comparison does not separate; the model is this insertion sort. On longer slices the library
  uses another algorithm and the order among such elements is not determined; no statement below
  depends on it.
\<close>

fun sortInsert :: "('a \<Rightarrow> 'a \<Rightarrow> bool) \<Rightarrow> 'a \<Rightarrow> 'a list \<Rightarrow> 'a list" where
  "sortInsert lt x [] = [x]"
| "sortInsert lt x (y # ys) = (if lt y x then y # sortInsert lt x ys else x # y # ys)"

fun sortSlice :: "('a \<Rightarrow> 'a \<Rightarrow> bool) \<Rightarrow> 'a list \<Rightarrow> 'a list" where
  "sortSlice lt [] = []"
| "sortSlice lt (x # xs) = sortInsert lt x (sortSlice lt xs)"

definition bySize :: "Entry \<Rightarrow> Entry \<Rightarrow> bool" where
  "bySize a b \<longleftrightarrow> sint (Size a) > sint (Size b)"

text \<open>
  The workers run concurrently, so the results arrive in an order the program does not control.
  The parameter \<open>arrival\<close> is that order: it maps the results in submission order to the sequence
  read from the channel. The channel delivers every result exactly once, which is \<open>delivers\<close>.
  Progress output is written to the terminal only and is not part of the model.
\<close>

type_synonym arrival = "dirResult list \<Rightarrow> dirResult list"

definition delivers :: "arrival \<Rightarrow> bool" where
  "delivers arrival \<longleftrightarrow> (\<forall>rs. mset (arrival rs) = mset rs)"

definition listRootWithSizes ::
  "arrival \<Rightarrow> fsnode \<Rightarrow> bool \<Rightarrow> go_error + (Entry list \<times> int64 \<times> int)" where
  "listRootWithSizes arrival root' showAll =
     (case ReadDir root' of
        (dirEntries, Some err) \<Rightarrow> Inl err
      | (dirEntries, None) \<Rightarrow>
          let st = classify showAll dirEntries
                     \<lparr>entries = [], totalSize = 0, totalCount = 0, dirs = []\<rparr>;
              st' = (if length (dirs st) > 0
                     then collect (arrival (map (worker showAll) (dirs st))) st
                     else st)
          in Inr (sortSlice bySize (entries st'), totalSize st', totalCount st'))"

section \<open>The byte formatter \<^verbatim>\<open>formatBytes\<close>\<close>

text \<open>
  Indexing a string out of range is a run-time panic in Go; \<^verbatim>\<open>formatBytes\<close> therefore returns
  either a panic or the formatted string.
\<close>

datatype panic = IndexOutOfRange

definition unit :: int64 where
  "unit = 1024"

text \<open>Go's \<^verbatim>\<open>/\<close> on \<^verbatim>\<open>int64\<close>: the quotient truncated towards zero, wrapped to 64 bits.\<close>

definition quo :: "int64 \<Rightarrow> int64 \<Rightarrow> int64" where
  "quo a b = word_of_int (sint a sdiv sint b)"

text \<open>
  The loop \<^verbatim>\<open>for n := b / unit; n >= unit; n /= unit { div *= unit; exp++ }\<close> as a function
  of its three variables (\<^verbatim>\<open>div\<close> is written \<open>dv\<close>).
\<close>

function formatBytes_loop :: "int64 \<Rightarrow> int64 \<Rightarrow> int \<Rightarrow> int64 \<times> int" where
  "formatBytes_loop n dv exp' =
     (if sint n \<ge> sint unit then formatBytes_loop (quo n unit) (dv * unit) (exp' + 1)
      else (dv, exp'))"
  by pat_completeness auto
termination
proof (relation "measure (\<lambda>(n, dv, exp'). nat (sint n))")
  show "wf (measure (\<lambda>(n, dv, exp'). nat (sint n)))" by simp
next
  fix n dv :: int64 and exp' :: int
  assume "sint unit \<le> sint n"
  then have n: "1024 \<le> sint n" by (simp add: unit_def)
  have r: "sint n < 2 ^ 63" using sint_lt [of n] by simp
  have "sint n sdiv 1024 = sint n div 1024"
    using n by (simp add: signed_divide_int_def sgn_if)
  moreover have "- (2 ^ 63) \<le> sint n div 1024" "sint n div 1024 < 2 ^ 63"
    using n r by auto
  ultimately have "sint (quo n unit) = sint n div 1024"
    unfolding quo_def by (simp add: unit_def sint_sbintrunc' signed_take_bit_int_eq_self)
  with n have "sint (quo n unit) < sint n" "0 < sint n"
    by simp_all
  then show "((quo n unit, dv * unit, exp' + 1), (n, dv, exp')) \<in>
               measure (\<lambda>(n, dv, exp'). nat (sint n))"
    by simp
qed

declare formatBytes_loop.simps [simp del]

text \<open>The verb \<^verbatim>\<open>%d\<close>: decimal digits, with a minus sign for a negative value.\<close>

definition digit :: "nat \<Rightarrow> char" where
  "digit d = ''0123456789'' ! d"

function decimal :: "nat \<Rightarrow> string" where
  "decimal n = (if n < 10 then [digit n] else decimal (n div 10) @ [digit (n mod 10)])"
  by pat_completeness auto
termination
  by (relation "measure id") auto

declare decimal.simps [simp del]

definition Sprintf_d :: "int \<Rightarrow> string" where
  "Sprintf_d i = (if i < 0 then ''-'' @ decimal (nat (- i)) else decimal (nat i))"

text \<open>
  A finite \<^verbatim>\<open>float64\<close> is a rational number. \<open>float64_round\<close> is the rounding of IEEE 754
  binary64 (53 significant bits, ties to even; \<open>bit_length\<close> counts the binary digits of the
  integer part) that the conversion \<^verbatim>\<open>float64(b)\<close> and the
  division apply to their exact results; it is written for magnitudes from 1 up to the largest
  finite value, which is where \<^verbatim>\<open>formatBytes\<close> uses it. \<open>Sprintf_1f\<close> is the verb \<^verbatim>\<open>%.1f\<close>:
  the value rounded to tenths (ties to even, as \<^verbatim>\<open>strconv\<close> rounds the exact decimal expansion),
  printed as integer part, point, one digit.
\<close>

function bit_length :: "int \<Rightarrow> int" where
  "bit_length n = (if 0 < n then bit_length (n div 2) + 1 else 0)"
  by pat_completeness auto
termination
  by (relation "measure nat") auto

declare bit_length.simps [simp del]

definition roundEven :: "rat \<Rightarrow> int" where
  "roundEven x =
     (let f = \<lfloor>x\<rfloor>; r = x - of_int f
      in if r < 1 / 2 then f else if r > 1 / 2 then f + 1 else if even f then f else f + 1)"

definition float64_round :: "rat \<Rightarrow> rat" where
  "float64_round x =
     (let e = bit_length \<lfloor>\<bar>x\<bar>\<rfloor> - 53
      in sgn x * of_int (roundEven (\<bar>x\<bar> / 2 powi e)) * 2 powi e)"

definition float64 :: "int64 \<Rightarrow> rat" where
  "float64 b = float64_round (of_int (sint b))"

definition Sprintf_1f :: "rat \<Rightarrow> string" where
  "Sprintf_1f x =
     (let t = roundEven (\<bar>x\<bar> * 10)
      in (if x < 0 then ''-'' else []) @ decimal (nat (t div 10)) @ ''.'' @ [digit (nat (t mod 10))])"

definition index_byte :: "string \<Rightarrow> int \<Rightarrow> panic + char" where
  "index_byte s i =
     (if 0 \<le> i \<and> i < int (length s) then Inr (s ! nat i) else Inl IndexOutOfRange)"

definition formatBytes :: "int64 \<Rightarrow> panic + string" where
  "formatBytes b =
     (if sint b < sint unit then Inr (Sprintf_d (sint b) @ '' B'')
      else case formatBytes_loop (quo b unit) unit 0 of
        (dv, exp') \<Rightarrow>
          (case index_byte ''KMGTPE'' exp' of
             Inl p \<Rightarrow> Inl p
           | Inr c \<Rightarrow>
               Inr (Sprintf_1f (float64_round (float64 b / float64 dv)) @ '' '' @ [c] @ ''B'')))"

section \<open>What the specification counts\<close>

text \<open>
  A directory tree in the sense of the specification is a file system on which every call
  succeeds: every \<^verbatim>\<open>lstat\<close> and every directory listing.
\<close>

fun io_ok :: "fsnode \<Rightarrow> bool" and io_oks :: "(string \<times> fsnode) list \<Rightarrow> bool" where
  "io_ok (File t i) = (i \<noteq> None)"
| "io_ok (Dir l es r) = (l \<and> r \<and> io_oks es)"
| "io_oks [] = True"
| "io_oks (e # es) = (io_ok (snd e) \<and> io_oks es)"

text \<open>
  The entries reachable from an entry, itself included: the walk does not enter a hidden
  directory when hidden entries are excluded, and skips a hidden file.
\<close>

fun reach :: "bool \<Rightarrow> string \<times> fsnode \<Rightarrow> (string \<times> fsnode) list"
  and reach_list :: "bool \<Rightarrow> (string \<times> fsnode) list \<Rightarrow> (string \<times> fsnode) list" where
  "reach includeHidden (name, File t i) =
     (if \<not> includeHidden \<and> dotfile name then [] else [(name, File t i)])"
| "reach includeHidden (name, Dir l es r) =
     (if \<not> includeHidden \<and> dotfile name then []
      else (name, Dir l es r) # reach_list includeHidden es)"
| "reach_list includeHidden [] = []"
| "reach_list includeHidden (e # es) = reach includeHidden e @ reach_list includeHidden es"

fun reachable_from_root :: "bool \<Rightarrow> fsnode \<Rightarrow> (string \<times> fsnode) list" where
  "reachable_from_root includeHidden (Dir l es r) = reach_list includeHidden es"
| "reachable_from_root includeHidden (File t i) = []"

fun is_regular :: "fsnode \<Rightarrow> bool" where
  "is_regular (File t i) = (t = Regular)"
| "is_regular (Dir l es r) = False"

fun file_size :: "fsnode \<Rightarrow> int64" where
  "file_size (File t (Some n)) = n"
| "file_size (File t None) = 0"
| "file_size (Dir l es r) = 0"

fun is_special :: "fsnode \<Rightarrow> bool" where
  "is_special (File t i) = (t = Irregular)"
| "is_special (Dir l es r) = False"

definition regular_bytes :: "(string \<times> fsnode) list \<Rightarrow> int64" where
  "regular_bytes xs = sum_list (map (\<lambda>e. file_size (snd e)) (filter (\<lambda>e. is_regular (snd e)) xs))"

definition file_like_count :: "(string \<times> fsnode) list \<Rightarrow> nat" where
  "file_like_count xs = length (filter (\<lambda>e. is_regular (snd e) \<or> IsSymlink (snd e)) xs)"

text \<open>
  The special files (named pipes, sockets, device nodes) among a list of entries, their number and
  the sizes that \<^verbatim>\<open>Info()\<close> reports for them.
\<close>

definition special_count :: "(string \<times> fsnode) list \<Rightarrow> nat" where
  "special_count xs = length (filter (\<lambda>e. is_special (snd e)) xs)"

definition special_bytes :: "(string \<times> fsnode) list \<Rightarrow> int64" where
  "special_bytes xs = sum_list (map (\<lambda>e. file_size (snd e)) (filter (\<lambda>e. is_special (snd e)) xs))"

text \<open>
  The bytes that the visible symbolic links among the immediate children of the root have
  themselves (the \<^verbatim>\<open>lstat\<close> size of the link).
\<close>

definition root_symlink_bytes :: "bool \<Rightarrow> fsnode \<Rightarrow> int64" where
  "root_symlink_bytes includeHidden root' =
     sum_list (map (\<lambda>e. file_size (snd e))
       (filter (\<lambda>e. \<not> (\<not> includeHidden \<and> dotfile (fst e)) \<and> IsSymlink (snd e)) (fst (ReadDir root'))))"

section \<open>Reading a decimal numeral\<close>




section \<open>Auxiliary notions for the proofs\<close>

definition balanced :: "scan \<Rightarrow> bool" where
  "balanced st \<longleftrightarrow> totalSize st = sum_list (map Size (entries st))"

definition root_dir :: "bool \<Rightarrow> string \<times> fsnode \<Rightarrow> bool" where
  "root_dir showAll e \<longleftrightarrow> \<not> (\<not> showAll \<and> dotfile (fst e)) \<and> IsDir (snd e)"

definition root_file :: "bool \<Rightarrow> string \<times> fsnode \<Rightarrow> bool" where
  "root_file showAll e \<longleftrightarrow>
     \<not> (\<not> showAll \<and> dotfile (fst e)) \<and> \<not> IsDir (snd e) \<and> Info (snd e) \<noteq> None"

definition file_entry :: "string \<times> fsnode \<Rightarrow> Entry" where
  "file_entry e = \<lparr>Name = fst e, Size = file_size (snd e), Type = ''file''\<rparr>"

definition ok :: "dirResult \<Rightarrow> bool" where
  "ok r \<longleftrightarrow> err_r r = None"

definition scanned :: "arrival \<Rightarrow> bool \<Rightarrow> (string \<times> fsnode) list \<Rightarrow> scan" where
  "scanned arrival showAll dirEntries =
     (let st = classify showAll dirEntries \<lparr>entries = [], totalSize = 0, totalCount = 0, dirs = []\<rparr>
      in if length (dirs st) > 0 then collect (arrival (map (worker showAll) (dirs st))) st else st)"

section \<open>Example file systems\<close>

text \<open>
  The scenario of the specification: the root holds \<^verbatim>\<open>a.txt\<close> (100 bytes), \<^verbatim>\<open>.hidden.txt\<close>
  (50 bytes) and the directory \<^verbatim>\<open>sub\<close> with \<^verbatim>\<open>b.txt\<close> (200 bytes) and \<^verbatim>\<open>.subhidden\<close>
  (10 bytes).
\<close>

definition example_tree :: fsnode where
  "example_tree =
     Dir True
       [(''.hidden.txt'', File Regular (Some 50)),
        (''a.txt'', File Regular (Some 100)),
        (''sub'', Dir True
                   [(''.subhidden'', File Regular (Some 10)),
                    (''b.txt'', File Regular (Some 200))] True)] True"

text \<open>Two subdirectories of the same size, each holding one file of 5 bytes.\<close>

definition tie_tree :: fsnode where
  "tie_tree =
     Dir True
       [(''x'', Dir True [(''f'', File Regular (Some 5))] True),
        (''y'', Dir True [(''g'', File Regular (Some 5))] True)] True"

text \<open>
  A symbolic link \<^verbatim>\<open>link\<close> to a path of 6 bytes, once directly in the root and once in the
  subdirectory \<^verbatim>\<open>sub\<close>.
\<close>

definition symlink_tree :: fsnode where
  "symlink_tree =
     Dir True
       [(''link'', File Symlink (Some 6)),
        (''sub'', Dir True [(''link'', File Symlink (Some 6))] True)] True"

text \<open>A regular file of 100 bytes and a symbolic link to a path of 6 bytes, both in the root.\<close>

definition mixed_tree :: fsnode where
  "mixed_tree =
     Dir True
       [(''a.txt'', File Regular (Some 100)),
        (''link'', File Symlink (Some 6))] True"

text \<open>
  A regular file of 100 bytes and a named pipe (size 0) in the root, and a socket (size 0) in the
  subdirectory \<^verbatim>\<open>run\<close>.
\<close>

definition fifo_tree :: fsnode where
  "fifo_tree =
     Dir True
       [(''a.txt'', File Regular (Some 100)),
        (''pipe'', File Irregular (Some 0)),
        (''run'', Dir True [(''sock'', File Irregular (Some 0))] True)] True"

text \<open>
  The root holds \<^verbatim>\<open>a.txt\<close> and a subdirectory \<^verbatim>\<open>sub\<close> that cannot be walked: in the first tree
  listing \<^verbatim>\<open>sub\<close> fails (permission denied), in the second even \<^verbatim>\<open>lstat\<close> on it fails (it
  has disappeared since the root was listed).
\<close>

definition unreadable_sub_tree :: fsnode where
  "unreadable_sub_tree =
     Dir True
       [(''a.txt'', File Regular (Some 100)),
        (''sub'', Dir True [] False)] True"

definition vanished_sub_tree :: fsnode where
  "vanished_sub_tree =
     Dir True
       [(''a.txt'', File Regular (Some 100)),
        (''sub'', Dir False [] False)] True"

section \<open>Sorting\<close>

lemma mset_sortInsert: "mset (sortInsert lt x xs) = add_mset x (mset xs)"
  by (induction xs) auto

lemma mset_sortSlice: "mset (sortSlice lt xs) = mset xs"
  by (induction xs) (auto simp: mset_sortInsert)

lemma set_sortInsert: "set (sortInsert lt x xs) = insert x (set xs)"
  using mset_sortInsert [of lt x xs] by (metis set_mset_add_mset_insert set_mset_mset)

lemma sorted_sortInsert:
  "sorted_wrt (\<lambda>a b. \<not> bySize b a) xs \<Longrightarrow>
   sorted_wrt (\<lambda>a b. \<not> bySize b a) (sortInsert bySize x xs)"
  by (induction xs) (auto simp: set_sortInsert bySize_def)

lemma sorted_sortSlice: "sorted_wrt (\<lambda>a b. \<not> bySize b a) (sortSlice bySize xs)"
  by (induction xs) (auto simp: sorted_sortInsert)

lemma sum_sortInsert:
  "sum_list (map Size (sortInsert lt x xs)) = Size x + sum_list (map Size xs)"
  by (induction xs) (auto simp: ac_simps)

lemma sum_sortSlice: "sum_list (map Size (sortSlice lt xs)) = sum_list (map Size xs)"
  by (induction xs) (auto simp: sum_sortInsert)

section \<open>Delivery of the results\<close>

lemma delivers_id: "delivers id"
  by (simp add: delivers_def)

lemma delivers_rev: "delivers rev"
  by (simp add: delivers_def)

lemma delivers_set: "delivers arrival \<Longrightarrow> set (arrival rs) = set rs"
  unfolding delivers_def by (metis set_mset_mset)

lemma delivers_Nil: "delivers arrival \<Longrightarrow> arrival [] = []"
  unfolding delivers_def by (metis mset_zero_iff)

lemma sum_list_filter_perm:
  fixes f :: "'a \<Rightarrow> 'b::comm_monoid_add"
  assumes "mset xs = mset ys"
  shows "sum_list (map f (filter P xs)) = sum_list (map f (filter P ys))"
proof -
  have "sum_mset (image_mset f (filter_mset P (mset xs))) =
        sum_mset (image_mset f (filter_mset P (mset ys)))"
    using assms by simp
  then show ?thesis
    by (metis mset_filter mset_map sum_mset_sum_list)
qed

section \<open>\<^verbatim>\<open>sizeDir\<close> never reports an error\<close>

text \<open>
  The callback answers every error it is handed with \<^verbatim>\<open>nil\<close>, also the one that
  \<^verbatim>\<open>filepath.WalkDir\<close> reports for the root path itself, and its only other non-nil result is
  \<^verbatim>\<open>SkipDir\<close> on a directory, which the walk absorbs.
\<close>

lemmas walk_induct = walkDir_walkDirs.induct

lemma sizeDir_fn_err:
  "snd (sizeDir_fn showAll s path d err) = None \<or>
   (snd (sizeDir_fn showAll s path d err) = Some SkipDir \<and> (\<exists>n. d = Some n \<and> IsDir n)) \<or>
   (d = None \<and> err = None)"
  by (cases "(showAll, s, path, d, err)" rule: sizeDir_fn.cases) (auto split: option.splits)

lemma walk_no_error_gen:
  assumes "\<And>s p d e. snd (fn s p d e) = None \<or>
             (snd (fn s p d e) = Some SkipDir \<and> (\<exists>n. d = Some n \<and> IsDir n)) \<or> (d = None \<and> e = None)"
  shows "snd (walkDir fn path node s) = None"
    and "snd (walkDirs fn ds s) = None"
  using assms
proof (induction fn path node s and fn ds s rule: walk_induct)
  case (1 fn path t i s)
  from "1.prems" [of s path "Some (File t i)" None] show ?case by auto
next
  case (2 fn path l es r s)
  obtain s1 e1 where first: "fn s path (Some (Dir l es r)) None = (s1, e1)"
    by (cases "fn s path (Some (Dir l es r)) None")
  show ?case
  proof (cases e1)
    case (Some e)
    with first "2.prems" [of s path "Some (Dir l es r)" None]
    show ?thesis by auto
  next
    case None
    show ?thesis
    proof (cases r)
      case True
      with first None "2.IH"(1) [of s1 e1] "2.prems" show ?thesis by simp
    next
      case False
      obtain s2 e2 where second: "fn s1 path (Some (Dir l es r)) (Some PathError) = (s2, e2)"
        by (cases "fn s1 path (Some (Dir l es r)) (Some PathError)")
      with "2.prems" [of s1 path "Some (Dir l es r)" "Some PathError"]
      have "e2 = None \<or> e2 = Some SkipDir" by auto
      then show ?thesis
        using first None False second "2.IH"(2) [of s1 e1 s2 e2] "2.prems"
        by auto
    qed
  qed
next
  case (3 fn s)
  then show ?case by simp
next
  case (4 fn d1 dirs s)
  obtain s1 e1 where w: "walkDir fn (fst d1) (snd d1) s = (s1, e1)"
    by (cases "walkDir fn (fst d1) (snd d1) s")
  with "4.IH"(1) "4.prems" have "e1 = None" by fastforce
  with w "4.IH"(2) [of s1 e1] "4.prems" show ?case by simp
qed

lemmas walk_no_error = walk_no_error_gen [of "sizeDir_fn showAll" for showAll, OF sizeDir_fn_err]

lemma sizeDir_no_error: "snd (snd (sizeDir root' node showAll)) = None"
proof (cases "Lstat node")
  case True
  then show ?thesis
    using walk_no_error(1) [of showAll root' node "(0, 0)"]
    by (auto simp: sizeDir_def WalkDir_def split: prod.splits)
next
  case False
  then show ?thesis
    by (auto simp: sizeDir_def WalkDir_def split: prod.splits)
qed

lemma worker_ok: "ok (worker showAll e)"
  using sizeDir_no_error [of "fst e" "snd e" showAll]
  by (cases "sizeDir (fst e) (snd e) showAll") (simp add: ok_def worker_def)

lemma filter_ok_workers: "filter ok (map (worker showAll) ds) = map (worker showAll) ds"
  by (simp add: worker_ok)

text \<open>
  Claim C3. A failure to open the top-level path is propagated by \<^verbatim>\<open>sizeDir\<close> to its caller as a
  non-nil error (the only error it returns), while errors on entries inside the subtree are skipped.
  On the code the first part fails: for a top-level path on which \<^verbatim>\<open>lstat\<close> fails, and for one
  that cannot be listed, \<^verbatim>\<open>sizeDir\<close> returns zero bytes, zero entries and the error \<^verbatim>\<open>nil\<close>.
\<close>

theorem sizeDir_swallows_top_level_failure:
  "sizeDir ''sub'' (Dir False [] False) False = (0, 0, None) \<and>
   sizeDir ''sub'' (Dir True [] False) False = (0, 0, None)"
  by code_simp

text \<open>
  Claim C2. An immediate subdirectory that cannot be walked is dropped entirely: zero size, zero
  count and no entry in the result list, while its siblings are listed and counted. On the code
  the subdirectory adds nothing to the totals and the sibling is kept, but an entry of size 0 is
  listed for the subdirectory, because its result never carries an error.
\<close>

theorem unwalkable_subdirectory_is_listed:
  "listRootWithSizes id unreadable_sub_tree False =
     Inr ([\<lparr>Name = ''a.txt'', Size = 100, Type = ''file''\<rparr>,
           \<lparr>Name = ''sub'', Size = 0, Type = ''dir''\<rparr>], 100, 1) \<and>
   listRootWithSizes id vanished_sub_tree False =
     Inr ([\<lparr>Name = ''a.txt'', Size = 100, Type = ''file''\<rparr>,
           \<lparr>Name = ''sub'', Size = 0, Type = ''dir''\<rparr>], 100, 1)"
  by code_simp

section \<open>Both iterations of \<^verbatim>\<open>listRootWithSizes\<close> in closed form\<close>

lemma Info_file_size: "\<not> IsDir d \<Longrightarrow> Info d = Some sz \<Longrightarrow> file_size d = sz"
  by (cases d) auto

lemma classify_eq:
  "classify showAll es st =
     st\<lparr>entries := entries st @ map file_entry (filter (root_file showAll) es),
        totalSize := totalSize st + sum_list (map (\<lambda>e. file_size (snd e)) (filter (root_file showAll) es)),
        totalCount := totalCount st + int (length (filter (root_file showAll) es)),
        dirs := dirs st @ filter (root_dir showAll) es\<rparr>"
proof (induction showAll es st rule: classify.induct)
  case (1 showAll st)
  then show ?case by simp
next
  case (2 showAll dirEntry rest st)
  consider (hidden) "\<not> showAll" "dotfile (fst dirEntry)"
    | (dir) "showAll \<or> \<not> dotfile (fst dirEntry)" "IsDir (snd dirEntry)"
    | (unreadable) "showAll \<or> \<not> dotfile (fst dirEntry)" "\<not> IsDir (snd dirEntry)"
        "Info (snd dirEntry) = None"
    | (readable) sz where "showAll \<or> \<not> dotfile (fst dirEntry)" "\<not> IsDir (snd dirEntry)"
        "Info (snd dirEntry) = Some sz"
    by (cases "Info (snd dirEntry)") auto
  then show ?case
  proof cases
    case hidden
    with "2.IH"(1) show ?thesis by (simp add: root_file_def root_dir_def)
  next
    case dir
    then have v: "\<not> (\<not> showAll \<and> dotfile (fst dirEntry))" by blast
    then have v': "(\<not> showAll \<and> dotfile (fst dirEntry)) = False" by simp
    from "2.IH"(2) [OF v dir(2)] dir(2) show ?thesis
      by (simp add: root_file_def root_dir_def v')
  next
    case unreadable
    then have v: "\<not> (\<not> showAll \<and> dotfile (fst dirEntry))" by blast
    then have v': "(\<not> showAll \<and> dotfile (fst dirEntry)) = False" by simp
    from "2.IH"(3) [OF v unreadable(2,3)] unreadable(2,3) show ?thesis
      by (simp add: root_file_def root_dir_def v')
  next
    case readable
    then have v: "\<not> (\<not> showAll \<and> dotfile (fst dirEntry))" by blast
    have "file_size (snd dirEntry) = sz"
      using readable(2,3) by (rule Info_file_size)
    moreover from v have v': "(\<not> showAll \<and> dotfile (fst dirEntry)) = False" by simp
    ultimately show ?thesis
      using "2.IH"(4) [OF v readable(2,3)] readable(2,3)
      by (simp add: root_file_def root_dir_def file_entry_def add.assoc v')
  qed
qed

lemma collect_eq:
  "collect rs st =
     st\<lparr>entries := entries st @ map entry (filter ok rs),
        totalSize := totalSize st + sum_list (map size_r (filter ok rs)),
        totalCount := totalCount st + sum_list (map count_r (filter ok rs))\<rparr>"
  by (induction rs st rule: collect.induct) (simp_all add: ok_def add.assoc)

lemma listRootWithSizes_scanned:
  "listRootWithSizes arrival root' showAll =
     (case ReadDir root' of
        (dirEntries, Some err) \<Rightarrow> Inl err
      | (dirEntries, None) \<Rightarrow>
          Inr (sortSlice bySize (entries (scanned arrival showAll dirEntries)),
               totalSize (scanned arrival showAll dirEntries),
               totalCount (scanned arrival showAll dirEntries)))"
  by (simp add: listRootWithSizes_def scanned_def Let_def split: prod.splits option.splits)

lemma scanned_collect:
  assumes "delivers arrival"
  shows "scanned arrival showAll es =
           collect (arrival (map (worker showAll) (filter (root_dir showAll) es)))
             (classify showAll es \<lparr>entries = [], totalSize = 0, totalCount = 0, dirs = []\<rparr>)"
proof (cases "filter (root_dir showAll) es = []")
  case True
  then show ?thesis
    unfolding scanned_def Let_def by (simp add: classify_eq delivers_Nil [OF assms])
next
  case False
  then show ?thesis
    unfolding scanned_def Let_def by (simp add: classify_eq)
qed

lemma scanned_totalSize:
  assumes "delivers arrival"
  shows "totalSize (scanned arrival showAll es) =
           sum_list (map (\<lambda>e. file_size (snd e)) (filter (root_file showAll) es)) +
           sum_list (map (\<lambda>e. size_r (worker showAll e)) (filter (root_dir showAll) es))"
proof -
  have "mset (arrival (map (worker showAll) (filter (root_dir showAll) es))) =
        mset (map (worker showAll) (filter (root_dir showAll) es))"
    using assms by (simp add: delivers_def)
  from sum_list_filter_perm [OF this, of size_r ok] show ?thesis
    unfolding scanned_collect [OF assms] collect_eq classify_eq
    by (simp add: filter_ok_workers comp_def)
qed

lemma scanned_totalCount:
  assumes "delivers arrival"
  shows "totalCount (scanned arrival showAll es) =
           int (length (filter (root_file showAll) es)) +
           sum_list (map (\<lambda>e. count_r (worker showAll e)) (filter (root_dir showAll) es))"
proof -
  have "mset (arrival (map (worker showAll) (filter (root_dir showAll) es))) =
        mset (map (worker showAll) (filter (root_dir showAll) es))"
    using assms by (simp add: delivers_def)
  from sum_list_filter_perm [OF this, of count_r ok] show ?thesis
    unfolding scanned_collect [OF assms] collect_eq classify_eq
    by (simp add: filter_ok_workers comp_def)
qed

lemma scanned_entries:
  assumes "delivers arrival"
  shows "mset (entries (scanned arrival showAll es)) =
           mset (map file_entry (filter (root_file showAll) es)) +
           mset (map (\<lambda>e. entry (worker showAll e)) (filter (root_dir showAll) es))"
proof -
  have "mset (arrival (map (worker showAll) (filter (root_dir showAll) es))) =
        mset (map (worker showAll) (filter (root_dir showAll) es))"
    using assms by (simp add: delivers_def)
  then have "mset (map entry (filter ok (arrival (map (worker showAll) (filter (root_dir showAll) es))))) =
        mset (map entry (filter ok (map (worker showAll) (filter (root_dir showAll) es))))"
    by (metis mset_filter mset_map)
  then show ?thesis
    unfolding scanned_collect [OF assms] collect_eq classify_eq
    by (simp add: filter_ok_workers comp_def)
qed

section \<open>The total is the sum of the listed sizes\<close>

lemma example_tree_scan:
  "listRootWithSizes id example_tree False =
     Inr ([\<lparr>Name = ''sub'', Size = 200, Type = ''dir''\<rparr>,
           \<lparr>Name = ''a.txt'', Size = 100, Type = ''file''\<rparr>], 300, 2)"
  by code_simp

lemma classify_balanced: "balanced st \<Longrightarrow> balanced (classify showAll es st)"
  by (induction showAll es st rule: classify.induct) (auto simp: balanced_def split: option.splits)

lemma collect_balanced:
  "balanced st \<Longrightarrow> \<forall>r\<in>set rs. size_r r = Size (entry r) \<Longrightarrow> balanced (collect rs st)"
  by (induction rs st rule: collect.induct) (auto simp: balanced_def)

lemma worker_size: "size_r (worker showAll d) = Size (entry (worker showAll d))"
  by (simp add: worker_def split: prod.splits)

text \<open>
  Claim C6. For every successful scan, \<^verbatim>\<open>totalSize\<close> equals the sum of the \<^verbatim>\<open>Size\<close> field over
  all entries of the returned list (the size of a \<^verbatim>\<open>dir\<close> entry being the byte total that
  \<^verbatim>\<open>sizeDir\<close> returned for it). Both sides are \<^verbatim>\<open>int64\<close> values; the result channel delivers
  every worker's result once, in any order.
\<close>

theorem totalSize_is_sum_of_entry_sizes:
  assumes "delivers arrival"
    and "listRootWithSizes arrival root' showAll = Inr (es, ts, tc)"
  shows "ts = sum_list (map Size es)"
proof -
  define st0 :: scan where "st0 = \<lparr>entries = [], totalSize = 0, totalCount = 0, dirs = []\<rparr>"
  define st where "st = classify showAll (fst (ReadDir root')) st0"
  define st' where "st' = (if length (dirs st) > 0
                     then collect (arrival (map (worker showAll) (dirs st))) st
                     else st)"
  have res: "es = sortSlice bySize (entries st')" "ts = totalSize st'"
    using assms(2) unfolding listRootWithSizes_def st'_def st_def st0_def
    by (auto simp: Let_def split: prod.splits option.splits)
  have "balanced st0" by (simp add: balanced_def st0_def)
  then have b: "balanced st" unfolding st_def by (rule classify_balanced)
  have "\<forall>r\<in>set (arrival (map (worker showAll) (dirs st))). size_r r = Size (entry r)"
    using delivers_set [OF assms(1)] by (auto simp: worker_size)
  with b have "balanced st'" unfolding st'_def by (simp add: collect_balanced)
  then show ?thesis by (simp add: res balanced_def sum_sortSlice)
qed

theorem totalSize_is_sum_of_entry_sizes_witness:
  "delivers id \<and>
   listRootWithSizes id example_tree False =
     Inr ([\<lparr>Name = ''sub'', Size = 200, Type = ''dir''\<rparr>,
           \<lparr>Name = ''a.txt'', Size = 100, Type = ''file''\<rparr>], 300, 2) \<and>
   (300 :: int64) =
     sum_list (map Size [\<lparr>Name = ''sub'', Size = 200, Type = ''dir''\<rparr>,
                         \<lparr>Name = ''a.txt'', Size = 100, Type = ''file''\<rparr>])"
  using totalSize_is_sum_of_entry_sizes [OF delivers_id example_tree_scan]
    delivers_id example_tree_scan
  by simp

section \<open>The listing is sorted\<close>

text \<open>
  Claim C7. The entry list of every successful scan is sorted by size descending: for all adjacent
  index pairs \<open>(i, i + 1)\<close> the size at \<open>i\<close> is at least the size at \<open>i + 1\<close>, in the signed
  order of \<^verbatim>\<open>int64\<close>. Nothing is stated about the order among entries of equal size.
\<close>

theorem entries_sorted_by_size_descending:
  assumes "listRootWithSizes arrival root' showAll = Inr (es, ts, tc)"
  shows "\<forall>i. i + 1 < length es \<longrightarrow> sint (Size (es ! i)) \<ge> sint (Size (es ! (i + 1)))"
proof -
  from assms obtain xs where es: "es = sortSlice bySize xs"
    by (auto simp: listRootWithSizes_def Let_def split: prod.splits option.splits)
  have "sorted_wrt (\<lambda>a b. \<not> bySize b a) es"
    unfolding es by (rule sorted_sortSlice)
  then have "\<forall>i j. i < j \<longrightarrow> j < length es \<longrightarrow> \<not> bySize (es ! j) (es ! i)"
    by (simp add: sorted_wrt_iff_nth_less)
  then show ?thesis
    by (auto simp: bySize_def not_less)
qed

theorem entries_sorted_by_size_descending_witness:
  "listRootWithSizes id example_tree False =
     Inr ([\<lparr>Name = ''sub'', Size = 200, Type = ''dir''\<rparr>,
           \<lparr>Name = ''a.txt'', Size = 100, Type = ''file''\<rparr>], 300, 2) \<and>
   (0 :: nat) + 1 < length [\<lparr>Name = ''sub'', Size = 200, Type = ''dir''\<rparr>,
                            \<lparr>Name = ''a.txt'', Size = 100, Type = ''file''\<rparr>] \<and>
   sint (200 :: int64) \<ge> sint (100 :: int64)"
  using entries_sorted_by_size_descending [OF example_tree_scan] example_tree_scan
  by simp

section \<open>The arrival order of the results does not matter\<close>

text \<open>
  Claim C8. For a fixed file system and a fixed flag the totals are deterministic: whatever the
  order in which the results of the subdirectories arrive, the scan fails with the same error or
  returns the same \<^verbatim>\<open>totalSize\<close>, the same \<^verbatim>\<open>totalCount\<close> and the same multiset of entries.
\<close>

theorem totals_independent_of_arrival_order:
  assumes "delivers arrival1" and "delivers arrival2"
  shows "(\<exists>e. listRootWithSizes arrival1 root' showAll = Inl e \<and>
              listRootWithSizes arrival2 root' showAll = Inl e) \<or>
         (\<exists>es1 es2 ts tc.
              listRootWithSizes arrival1 root' showAll = Inr (es1, ts, tc) \<and>
              listRootWithSizes arrival2 root' showAll = Inr (es2, ts, tc) \<and>
              mset es1 = mset es2)"
proof (cases "ReadDir root'")
  case (Pair ds err)
  show ?thesis
  proof (cases err)
    case (Some e)
    with Pair show ?thesis by (simp add: listRootWithSizes_scanned)
  next
    case None
    with Pair show ?thesis
      by (simp add: listRootWithSizes_scanned mset_sortSlice
          scanned_entries [OF assms(1)] scanned_entries [OF assms(2)]
          scanned_totalSize [OF assms(1)] scanned_totalSize [OF assms(2)]
          scanned_totalCount [OF assms(1)] scanned_totalCount [OF assms(2)])
  qed
qed

theorem totals_independent_of_arrival_order_witness:
  "delivers id \<and> delivers rev \<and>
   listRootWithSizes id tie_tree False =
     Inr ([\<lparr>Name = ''x'', Size = 5, Type = ''dir''\<rparr>,
           \<lparr>Name = ''y'', Size = 5, Type = ''dir''\<rparr>], 10, 2) \<and>
   listRootWithSizes rev tie_tree False =
     Inr ([\<lparr>Name = ''y'', Size = 5, Type = ''dir''\<rparr>,
           \<lparr>Name = ''x'', Size = 5, Type = ''dir''\<rparr>], 10, 2) \<and>
   mset [\<lparr>Name = ''x'', Size = 5 :: int64, Type = ''dir''\<rparr>,
         \<lparr>Name = ''y'', Size = 5, Type = ''dir''\<rparr>] =
   mset [\<lparr>Name = ''y'', Size = 5 :: int64, Type = ''dir''\<rparr>,
         \<lparr>Name = ''x'', Size = 5, Type = ''dir''\<rparr>]"
proof -
  have 1: "listRootWithSizes id tie_tree False =
     Inr ([\<lparr>Name = ''x'', Size = 5, Type = ''dir''\<rparr>,
           \<lparr>Name = ''y'', Size = 5, Type = ''dir''\<rparr>], 10, 2)"
    by code_simp
  have 2: "listRootWithSizes rev tie_tree False =
     Inr ([\<lparr>Name = ''y'', Size = 5, Type = ''dir''\<rparr>,
           \<lparr>Name = ''x'', Size = 5, Type = ''dir''\<rparr>], 10, 2)"
    by code_simp
  show ?thesis
    using totals_independent_of_arrival_order [OF delivers_id delivers_rev, of tie_tree False]
      delivers_id delivers_rev 1 2
    by simp
qed

section \<open>The walk on a directory tree\<close>

lemma regular_bytes_append [simp]: "regular_bytes (xs @ ys) = regular_bytes xs + regular_bytes ys"
  by (simp add: regular_bytes_def)

lemma file_like_count_append [simp]: "file_like_count (xs @ ys) = file_like_count xs + file_like_count ys"
  by (simp add: file_like_count_def)

lemma regular_bytes_Nil [simp]: "regular_bytes [] = 0"
  by (simp add: regular_bytes_def)

lemma file_like_count_Nil [simp]: "file_like_count [] = 0"
  by (simp add: file_like_count_def)

lemma special_bytes_append [simp]: "special_bytes (xs @ ys) = special_bytes xs + special_bytes ys"
  by (simp add: special_bytes_def)

lemma special_count_append [simp]: "special_count (xs @ ys) = special_count xs + special_count ys"
  by (simp add: special_count_def)

lemma special_bytes_Nil [simp]: "special_bytes [] = 0"
  by (simp add: special_bytes_def)

lemma special_count_Nil [simp]: "special_count [] = 0"
  by (simp add: special_count_def)

lemma walk_reach:
  "io_ok (snd e) \<Longrightarrow>
     walkDir (sizeDir_fn h) (fst e) (snd e) (tot, cnt) =
       ((tot + (regular_bytes (reach h e) + special_bytes (reach h e)),
         cnt + int (file_like_count (reach h e) + special_count (reach h e))), None)"
  "io_oks es \<Longrightarrow>
     walkDirs (sizeDir_fn h) es (tot, cnt) =
       ((tot + (regular_bytes (reach_list h es) + special_bytes (reach_list h es)),
         cnt + int (file_like_count (reach_list h es) + special_count (reach_list h es))), None)"
proof (induction h e and h es arbitrary: tot cnt and tot cnt rule: reach_reach_list.induct)
  case (1 h name t i)
  then obtain n where "i = Some n" by auto
  then show ?case
    by (cases t)
      (simp_all add: regular_bytes_def file_like_count_def special_bytes_def special_count_def)
next
  case (2 h name l es r)
  then show ?case
    by (simp add: regular_bytes_def file_like_count_def special_bytes_def special_count_def)
next
  case (3 h)
  then show ?case by simp
next
  case (4 h e es)
  then show ?case by (simp add: ac_simps)
qed

lemma io_ok_Lstat: "io_ok d \<Longrightarrow> Lstat d"
  by (cases d) auto

lemma sizeDir_io_ok:
  assumes "io_ok (snd e)"
  shows "sizeDir (fst e) (snd e) h =
           (regular_bytes (reach h e) + special_bytes (reach h e),
            int (file_like_count (reach h e) + special_count (reach h e)), None)"
  using walk_reach(1) [OF assms, of h 0 0] io_ok_Lstat [OF assms]
  by (simp add: sizeDir_def WalkDir_def)

lemma root_entries_count:
  assumes "io_oks es"
  shows "int (length (filter (root_file h) es)) +
           sum_list (map (\<lambda>e. count_r (worker h e)) (filter (root_dir h) es)) =
         int (file_like_count (reach_list h es) + special_count (reach_list h es))"
  using assms
proof (induction es)
  case Nil
  show ?case by simp
next
  case (Cons e es)
  obtain name d where e: "e = (name, d)" by (cases e)
  from Cons.prems have ok: "io_ok d" "io_oks es" by (simp_all add: e)
  show ?case
  proof (cases d)
    case (File t i)
    with ok obtain n where "i = Some n" by auto
    with File Cons.IH [OF ok(2)] show ?thesis
      by (cases t)
        (auto simp: e root_file_def root_dir_def file_like_count_def special_count_def)
  next
    case (Dir l ds r)
    with ok(1) have "count_r (worker h e) =
        int (file_like_count (reach h e) + special_count (reach h e))"
      using sizeDir_io_ok [of e h] by (simp add: worker_def e)
    with Dir Cons.IH [OF ok(2)] show ?thesis
      by (auto simp: e root_file_def root_dir_def)
  qed
qed

lemma root_entries_bytes:
  assumes "io_oks es"
  shows "sum_list (map (\<lambda>e. file_size (snd e)) (filter (root_file h) es)) +
           sum_list (map (\<lambda>e. size_r (worker h e)) (filter (root_dir h) es)) =
         regular_bytes (reach_list h es) + special_bytes (reach_list h es) +
           sum_list (map (\<lambda>e. file_size (snd e))
             (filter (\<lambda>e. \<not> (\<not> h \<and> dotfile (fst e)) \<and> IsSymlink (snd e)) es))"
  using assms
proof (induction es)
  case Nil
  show ?case by simp
next
  case (Cons e es)
  obtain name d where e: "e = (name, d)" by (cases e)
  from Cons.prems have ok: "io_ok d" "io_oks es" by (simp_all add: e)
  show ?case
  proof (cases d)
    case (File t i)
    with ok obtain n where "i = Some n" by auto
    with File Cons.IH [OF ok(2)] show ?thesis
      by (cases t)
        (auto simp: e root_file_def root_dir_def regular_bytes_def special_bytes_def ac_simps)
  next
    case (Dir l ds r)
    with ok(1) have "size_r (worker h e) = regular_bytes (reach h e) + special_bytes (reach h e)"
      using sizeDir_io_ok [of e h] by (simp add: worker_def e)
    with Dir Cons.IH [OF ok(2)] show ?thesis
      by (auto simp: e root_file_def root_dir_def ac_simps)
  qed
qed

lemma io_ok_root:
  assumes "io_ok root'" "IsDir root'"
  obtains es where "root' = Dir True es True" "io_oks es"
  using assms by (cases root') auto

text \<open>
  The claim as the specification words it fails on a tree with a special file: the scan of the
  tree below returns the count 3, while the regular files and symbolic links reachable from its
  root number 1. Neither counting path tests for a regular file, so the named pipe and the socket
  are counted.
\<close>

theorem special_files_are_counted:
  "listRootWithSizes id fifo_tree False =
     Inr ([\<lparr>Name = ''a.txt'', Size = 100, Type = ''file''\<rparr>,
           \<lparr>Name = ''pipe'', Size = 0, Type = ''file''\<rparr>,
           \<lparr>Name = ''run'', Size = 0, Type = ''dir''\<rparr>], 100, 3) \<and>
   file_like_count (reachable_from_root False fifo_tree) = 1"
  by code_simp

text \<open>
  Claim C5, amended. For every directory tree, \<^verbatim>\<open>totalCount\<close> of the root scan is the number
  of regular files and symbolic links plus the number of special files (named pipes, sockets,
  device nodes) reachable from the root through entries that are not hidden (hidden directories
  pruned with all they contain, at every depth); directories are among the reachable entries and
  are not counted.
\<close>

theorem totalCount_is_number_of_non_directories:
  assumes "delivers arrival" and "io_ok root'" and "IsDir root'"
  shows "\<exists>es ts. listRootWithSizes arrival root' showAll =
           Inr (es, ts, int (file_like_count (reachable_from_root showAll root') +
                             special_count (reachable_from_root showAll root')))"
proof -
  from assms(2,3) obtain ds where root': "root' = Dir True ds True" and ds: "io_oks ds"
    by (rule io_ok_root)
  have "totalCount (scanned arrival showAll ds) =
          int (file_like_count (reach_list showAll ds) + special_count (reach_list showAll ds))"
    unfolding scanned_totalCount [OF assms(1)] by (rule root_entries_count [OF ds])
  then show ?thesis
    by (simp add: listRootWithSizes_scanned root')
qed

theorem totalCount_is_number_of_non_directories_witness:
  "delivers id \<and> io_ok fifo_tree \<and> IsDir fifo_tree \<and>
   file_like_count (reachable_from_root False fifo_tree) = 1 \<and>
   special_count (reachable_from_root False fifo_tree) = 2 \<and>
   (\<exists>es ts. listRootWithSizes id fifo_tree False = Inr (es, ts, 3))"
proof -
  have ok: "io_ok fifo_tree" by code_simp
  have dir: "IsDir fifo_tree" by code_simp
  have n: "file_like_count (reachable_from_root False fifo_tree) = 1" by code_simp
  have m: "special_count (reachable_from_root False fifo_tree) = 2" by code_simp
  show ?thesis
    using totalCount_is_number_of_non_directories [OF delivers_id ok dir, of False]
      delivers_id ok dir n m
    by simp
qed

text \<open>
  On a directory tree \<^verbatim>\<open>totalSize\<close> is the sum of the sizes of the reachable regular and
  special files plus the sizes that the visible symbolic links directly in the root have
  themselves.
\<close>

lemma totalSize_with_root_symlinks:
  assumes "delivers arrival" and "io_ok root'" and "IsDir root'"
  shows "\<exists>es tc. listRootWithSizes arrival root' showAll =
           Inr (es, regular_bytes (reachable_from_root showAll root') +
                    special_bytes (reachable_from_root showAll root') +
                    root_symlink_bytes showAll root', tc)"
proof -
  from assms(2,3) obtain ds where root': "root' = Dir True ds True" and ds: "io_oks ds"
    by (rule io_ok_root)
  have "totalSize (scanned arrival showAll ds) =
          regular_bytes (reach_list showAll ds) + special_bytes (reach_list showAll ds) +
          root_symlink_bytes showAll root'"
    unfolding scanned_totalSize [OF assms(1)] root_symlink_bytes_def root'
    using root_entries_bytes [OF ds] by simp
  then show ?thesis
    by (simp add: listRootWithSizes_scanned root')
qed

text \<open>
  Claim C1. Every symbolic link counted in \<^verbatim>\<open>totalCount\<close> contributes exactly 0 bytes to
  \<^verbatim>\<open>totalSize\<close>, whether it is an immediate child of the root or lies in a subdirectory. On the
  code this holds inside subdirectories only: of the two links of 6 bytes below, both counted, the
  one in \<^verbatim>\<open>sub\<close> adds nothing and the one in the root adds its 6 bytes.
\<close>

theorem root_symlink_adds_its_own_size:
  "listRootWithSizes id symlink_tree False =
     Inr ([\<lparr>Name = ''link'', Size = 6, Type = ''file''\<rparr>,
           \<lparr>Name = ''sub'', Size = 0, Type = ''dir''\<rparr>], 6, 2)"
  by code_simp

text \<open>
  Claim C4. For every directory tree, \<^verbatim>\<open>totalSize\<close> of the root scan is the sum of the sizes of
  the regular files reachable from the root through entries that are not hidden. On the code the
  total of the tree below is 106 while its only regular file has 100 bytes: the symbolic link in
  the root adds its own 6 bytes.
\<close>

theorem totalSize_exceeds_regular_bytes:
  "listRootWithSizes id mixed_tree False =
     Inr ([\<lparr>Name = ''a.txt'', Size = 100, Type = ''file''\<rparr>,
           \<lparr>Name = ''link'', Size = 6, Type = ''file''\<rparr>], 106, 2) \<and>
   regular_bytes (reachable_from_root False mixed_tree) = 100"
  by code_simp

section \<open>The byte formatter\<close>

lemma le_div_1024: "(a::int) \<le> x div 1024 \<Longrightarrow> a * 1024 \<le> x"
  by linarith

lemma sint_unit: "sint unit = 1024"
  by (simp add: unit_def)

lemma sint_quo_unit:
  assumes "0 \<le> sint n"
  shows "sint (quo n unit) = sint n div 1024"
proof -
  have r: "sint n < 2 ^ 63" using sint_lt [of n] by simp
  have "sint n sdiv 1024 = sint n div 1024"
    using assms by (simp add: signed_divide_int_def sgn_if)
  moreover have "- (2 ^ 63) \<le> sint n div 1024" "sint n div 1024 < 2 ^ 63"
    using assms r by auto
  ultimately show ?thesis
    unfolding quo_def sint_unit
    by (simp add: sint_sbintrunc' signed_take_bit_int_eq_self)
qed

lemma formatBytes_loop_spec:
  "0 \<le> sint n \<Longrightarrow>
   \<exists>k::nat. formatBytes_loop n dv e = (dv * 1024 ^ k, e + int k) \<and> sint n < 1024 ^ (k + 1) \<and>
     (0 < k \<longrightarrow> 1024 ^ k \<le> sint n)"
proof (induction n dv e rule: formatBytes_loop.induct)
  case (1 n dv e)
  show ?case
  proof (cases "sint n \<ge> sint unit")
    case False
    then have "formatBytes_loop n dv e = (dv * 1024 ^ 0, e + int 0)" "sint n < 1024 ^ (0 + 1)"
      by (simp_all add: formatBytes_loop.simps [of n dv e] sint_unit)
    then show ?thesis by blast
  next
    case True
    then have n: "1024 \<le> sint n" by (simp add: sint_unit)
    have q: "sint (quo n unit) = sint n div 1024"
      using "1.prems" by (rule sint_quo_unit)
    with n have "0 \<le> sint (quo n unit)" by simp
    from "1.IH" [OF True this] obtain k :: nat where
      k: "formatBytes_loop (quo n unit) (dv * unit) (e + 1) = (dv * unit * 1024 ^ k, e + 1 + int k)"
         "sint (quo n unit) < 1024 ^ (k + 1)" "0 < k \<longrightarrow> 1024 ^ k \<le> sint (quo n unit)"
      by blast
    have "formatBytes_loop n dv e = (dv * 1024 ^ Suc k, e + int (Suc k))"
      using True k(1) by (simp add: formatBytes_loop.simps [of n dv e] unit_def mult.assoc)
    moreover have "sint n < 1024 ^ (Suc k + 1)"
      using k(2) unfolding q by (simp add: div_less_iff_less_mult mult.commute)
    moreover have "1024 ^ Suc k \<le> sint n"
    proof (cases "0 < k")
      case True
      with k(3) have "1024 ^ k \<le> sint n div 1024" by (simp add: q)
      then have "1024 ^ k * 1024 \<le> sint n"
        using le_div_1024 by blast
      then show ?thesis by simp
    next
      case False
      with n show ?thesis by simp
    qed
    ultimately show ?thesis by blast
  qed
qed

lemma formatBytes_loop_large:
  assumes "1024 \<le> sint b"
  shows "\<exists>k::nat. k < 6 \<and> 1024 ^ (k + 1) \<le> sint b \<and> sint b < 1024 ^ (k + 2) \<and>
           formatBytes_loop (quo b unit) unit 0 = (1024 ^ (k + 1), int k)"
proof -
  have q: "sint (quo b unit) = sint b div 1024"
    using assms by (simp add: sint_quo_unit)
  with assms have "0 \<le> sint (quo b unit)" by simp
  from formatBytes_loop_spec [OF this, of unit 0] obtain k :: nat where
    k: "formatBytes_loop (quo b unit) unit 0 = (unit * 1024 ^ k, 0 + int k)"
       "sint (quo b unit) < 1024 ^ (k + 1)" "0 < k \<longrightarrow> 1024 ^ k \<le> sint (quo b unit)"
    by blast
  have lo: "1024 ^ (k + 1) \<le> sint b"
  proof (cases "0 < k")
    case True
    with k(3) have "1024 ^ k \<le> sint b div 1024" by (simp add: q)
    then have "1024 ^ k * 1024 \<le> sint b" by (rule le_div_1024)
    then show ?thesis by simp
  next
    case False
    with assms show ?thesis by simp
  qed
  have hi: "sint b < 1024 ^ (k + 2)"
    using k(2) unfolding q by (simp add: div_less_iff_less_mult mult.commute)
  have "k < 6"
  proof (rule ccontr)
    assume "\<not> k < 6"
    then have "(1024::int) ^ 7 \<le> 1024 ^ (k + 1)"
      by (intro power_increasing) simp_all
    with lo have "(1024::int) ^ 7 \<le> sint b" by linarith
    moreover have "sint b < 2 ^ 63" using sint_lt [of b] by simp
    ultimately show False by simp
  qed
  moreover have "formatBytes_loop (quo b unit) unit 0 = (1024 ^ (k + 1), int k)"
    using k(1) by (simp add: unit_def)
  ultimately show ?thesis using lo hi by blast
qed


lemma index_KMGTPE: "k < 6 \<Longrightarrow> index_byte ''KMGTPE'' (int k) = Inr (''KMGTPE'' ! k)"
  by (simp add: index_byte_def)






















text \<open>
  Claim C10. For every \<^verbatim>\<open>int64\<close> input \<^verbatim>\<open>formatBytes\<close> returns a string and never indexes
  \<^verbatim>\<open>KMGTPE\<close> out of range: from 1024 on the exponent that the loop computes lies between 0 and
  5, and every input below 1024, the negative ones included, is printed as a plain integer
  followed by \<^verbatim>\<open>B\<close>. That the loop terminates is the termination proof of
  \<open>formatBytes_loop\<close>.
\<close>

theorem formatBytes_never_panics:
  "(\<exists>s. formatBytes b = Inr s) \<and>
   (1024 \<le> sint b \<longrightarrow>
      0 \<le> snd (formatBytes_loop (quo b unit) unit 0) \<and> snd (formatBytes_loop (quo b unit) unit 0) \<le> 5) \<and>
   (sint b < 1024 \<longrightarrow> formatBytes b = Inr (Sprintf_d (sint b) @ '' B''))"
proof (intro conjI impI)
  show "\<exists>s. formatBytes b = Inr s"
  proof (cases "sint b < 1024")
    case True
    then show ?thesis by (simp add: formatBytes_def sint_unit)
  next
    case False
    then have "1024 \<le> sint b" by simp
    from formatBytes_loop_large [OF this] obtain k :: nat where
      "k < 6" "formatBytes_loop (quo b unit) unit 0 = (1024 ^ (k + 1), int k)"
      by blast
    with False show ?thesis by (simp add: formatBytes_def sint_unit index_KMGTPE)
  qed
next
  assume "1024 \<le> sint b"
  from formatBytes_loop_large [OF this] obtain k :: nat where
    "k < 6" "formatBytes_loop (quo b unit) unit 0 = (1024 ^ (k + 1), int k)"
    by blast
  then show "0 \<le> snd (formatBytes_loop (quo b unit) unit 0)"
    and "snd (formatBytes_loop (quo b unit) unit 0) \<le> 5"
    by simp_all
next
  assume "sint b < 1024"
  then show "formatBytes b = Inr (Sprintf_d (sint b) @ '' B'')"
    by (simp add: formatBytes_def sint_unit)
qed

theorem formatBytes_never_panics_witness:
  "1024 \<le> sint (1536 :: int64) \<and>
   snd (formatBytes_loop (quo 1536 unit) unit 0) \<le> 5 \<and>
   formatBytes 1536 = Inr ''1.5 KB'' \<and>
   sint (- 5 :: int64) < 1024 \<and>
   formatBytes (- 5) = Inr (Sprintf_d (- 5) @ '' B'') \<and> Sprintf_d (- 5) @ '' B'' = ''-5 B''"
proof -
  have 1: "formatBytes 1536 = Inr ''1.5 KB''" by code_simp
  have 2: "Sprintf_d (- 5) @ '' B'' = ''-5 B''" by code_simp
  show ?thesis
    using formatBytes_never_panics [of 1536] formatBytes_never_panics [of "- 5"] 1 2
    by simp
qed

end
